theory Spec2Isabelle
  imports Complex_Main "HOL-Library.DAList"
begin

section \<open>Python floats\<close>

text \<open>
  Lap times, benchmark times and tolerances are Python floats, that is IEEE 754 binary64
  numbers. A float is modelled by the real number it denotes, and every arithmetic
  operation of the source by the exact operation followed by \<open>rnd\<close>, rounding to the
  nearest number with a 53-bit significand, ties to the even significand. The exponent
  range is not bounded: overflow to infinity, subnormal numbers and NaN are outside the
  model. A decimal literal of the source such as \<open>0.05\<close> is \<open>rnd (5 / 100)\<close>.
\<close>

text \<open>Python's \<open>round(x)\<close> on a float: to the nearest integer, ties to the even one.\<close>

definition py_round :: "real \<Rightarrow> int" where
  "py_round x =
     (let f = \<lfloor>x\<rfloor>; d = x - of_int f
      in if d < 1 / 2 then f
         else if 1 / 2 < d then f + 1
         else if even f then f else f + 1)"

text \<open>The number of binary digits of a natural number.\<close>

fun bit_length :: "nat \<Rightarrow> nat" where
  "bit_length n = (if n = 0 then 0 else Suc (bit_length (n div 2)))"

declare bit_length.simps [simp del]

text \<open>The binary exponent of a positive real: \<open>2 powi expo x \<le> x < 2 powi (expo x + 1)\<close>.\<close>

definition expo :: "real \<Rightarrow> int" where
  "expo x =
     (if 1 \<le> x then int (bit_length (nat \<lfloor>x\<rfloor>)) - 1
      else (let j = int (bit_length (nat \<lfloor>1 / x\<rfloor>))
            in if x * 2 powi (j - 1) = 1 then 1 - j else - j))"

definition rnd :: "real \<Rightarrow> real" where
  "rnd x =
     (if x = 0 then 0
      else (let u = 2 powi (expo \<bar>x\<bar> - 52) in of_int (py_round (x / u)) * u))"

text \<open>The reals that are floats: those that rounding leaves alone.\<close>

definition is_double :: "real \<Rightarrow> bool" where
  "is_double x = (rnd x = x)"

definition fadd :: "real \<Rightarrow> real \<Rightarrow> real" where
  "fadd x y = rnd (x + y)"

definition fsub :: "real \<Rightarrow> real \<Rightarrow> real" where
  "fsub x y = rnd (x - y)"

definition fmul :: "real \<Rightarrow> real \<Rightarrow> real" where
  "fmul x y = rnd (x * y)"


section \<open>Lap classification (scan.py)\<close>

text \<open>
  \<open>classify_lap\<close> returns one of the strings 'dry', 'wet', 'gap' or the value None;
  the four results are the constructors of \<open>classification\<close>.
\<close>

datatype classification = Dry | Wet | Gap | Invalid

definition check_threshold_overlap :: "real \<Rightarrow> real \<Rightarrow> real \<Rightarrow> bool \<times> real \<times> real" where
  "check_threshold_overlap dry_benchmark wet_benchmark tolerance =
     (let dry_max = fmul dry_benchmark (fadd 1 tolerance);
          wet_min = fmul wet_benchmark (fsub 1 tolerance);
          overlaps = (wet_min \<le> dry_max)
      in (overlaps, dry_max, wet_min))"

definition classify_lap :: "real \<Rightarrow> real \<Rightarrow> real \<Rightarrow> real \<Rightarrow> classification" where
  "classify_lap lap_time dry_benchmark wet_benchmark tolerance =
     (let dry_min = fmul dry_benchmark (fsub 1 tolerance);
          dry_max = fmul dry_benchmark (fadd 1 tolerance);
          wet_min = fmul wet_benchmark (fsub 1 tolerance);
          wet_max = fmul wet_benchmark (fadd 1 tolerance)
      in if dry_min \<le> lap_time \<and> lap_time \<le> dry_max then Dry
         else if wet_min \<le> lap_time \<and> lap_time \<le> wet_max then Wet
         else if dry_max < wet_min \<and> dry_max < lap_time \<and> lap_time < wet_min then Gap
         else Invalid)"



section \<open>Tolerance recommendation (config\_editor.py)\<close>

datatype py_error = ZeroDivisionError | ValueError | IndexError | OSError



section \<open>Strings and integers as Python prints and reads them\<close>

text \<open>
  File names are Python strings; they are modelled as lists of 8-bit characters.
  \<open>str.lower\<close> is modelled on the ASCII letters.
\<close>

definition is_digit :: "char \<Rightarrow> bool" where
  "is_digit c = (48 \<le> (of_char c :: nat) \<and> (of_char c :: nat) \<le> 57)"

definition digit_val :: "char \<Rightarrow> nat" where
  "digit_val c = of_char c - 48"

definition digit_char :: "nat \<Rightarrow> char" where
  "digit_char n = char_of (48 + n)"

definition lower_char :: "char \<Rightarrow> char" where
  "lower_char c =
     (let n = (of_char c :: nat) in if 65 \<le> n \<and> n \<le> 90 then char_of (n + 32) else c)"

definition lower :: "string \<Rightarrow> string" where
  "lower s = map lower_char s"

text \<open>\<open>int(s)\<close> on a string of decimal digits.\<close>

definition nat_of_digits :: "string \<Rightarrow> nat" where
  "nat_of_digits s = foldl (\<lambda>acc c. 10 * acc + digit_val c) 0 s"

section \<open>The file system under the telemetry directory\<close>

text \<open>
  The telemetry directory the caller supplies is missing, or is not a directory, or is a
  directory: then it carries whether it can be listed, and its entries in the order
  \<open>iterdir\<close> and \<open>glob\<close> yield them. The names of the entries of a directory are
  distinct, so the entries form an association list with distinct keys. An entry is a file,
  carrying whether \<open>unlink\<close> succeeds on it, or a directory, carrying whether it can be
  listed, whether \<open>rmdir\<close> succeeds on it once it is empty, and its items. An item is a
  file or a subdirectory; \<open>unlink\<close> on a directory always fails. A path is the list of
  the names that lead to it from the telemetry directory.
\<close>

datatype item = Item_File bool | Item_Dir

datatype node = File bool | Dir bool bool "(string \<times> item) list"

datatype source = Missing | Not_A_Directory | Directory bool "(string, node) alist"

type_synonym path = "string list"

definition parent :: "path \<Rightarrow> path" where
  "parent p = butlast p"

definition is_dir :: "node \<Rightarrow> bool" where
  "is_dir x = (case x of Dir _ _ _ \<Rightarrow> True | File _ \<Rightarrow> False)"

text \<open>
  \<open>glob("*.ld")\<close> and \<open>glob("*.ldx")\<close> yield the entries of the directory itself whose
  name ends with the extension, files and directories alike; on Windows the comparison
  ignores case. A directory that cannot be listed yields nothing.
\<close>

definition ends_with :: "string \<Rightarrow> string \<Rightarrow> bool" where
  "ends_with suf s = (length suf \<le> length s \<and> drop (length s - length suf) s = suf)"

definition glob_match :: "bool \<Rightarrow> string \<Rightarrow> string \<Rightarrow> bool" where
  "glob_match windows ext name = ends_with ext (if windows then lower name else name)"

definition glob_names :: "bool \<Rightarrow> string \<Rightarrow> node \<Rightarrow> string list" where
  "glob_names windows ext d =
     (case d of
        Dir list_ok _ items \<Rightarrow>
          if list_ok then filter (glob_match windows ext) (map fst items) else []
      | File _ \<Rightarrow> [])"

definition glob_root :: "bool \<Rightarrow> string \<Rightarrow> source \<Rightarrow> path list" where
  "glob_root windows ext source_dir =
     (case source_dir of
        Directory list_ok es \<Rightarrow>
          if list_ok
          then map (\<lambda>n. [n]) (filter (glob_match windows ext) (map fst (DAList.impl_of es)))
          else []
      | _ \<Rightarrow> [])"

text \<open>
  The pattern \<open>^PBs_(\d{4}-\d{2}-\d{2}_\d{6})$\<close> under \<open>re.match\<close>: the name is PBs_ and
  the seventeen characters of the group; \<open>$\<close> also matches before one final newline.
\<close>

definition match_pb_name :: "string \<Rightarrow> string option" where
  "match_pb_name name =
     (let core = (if name \<noteq> [] \<and> last name = CHR 0x0A then butlast name else name);
          g = drop 4 core
      in if length core = 21 \<and> take 4 core = ''PBs_'' \<and>
            list_all is_digit (take 4 g) \<and> g ! 4 = CHR ''-'' \<and>
            list_all is_digit (take 2 (drop 5 g)) \<and> g ! 7 = CHR ''-'' \<and>
            list_all is_digit (take 2 (drop 8 g)) \<and> g ! 10 = CHR ''_'' \<and>
            list_all is_digit (drop 11 g)
         then Some g else None)"

text \<open>
  \<open>datetime.strptime(s, "%Y-%m-%d_%H%M%S")\<close> on a string of that shape, as the standard
  library does it: ValueError (here None) unless the year is at least 1, the month is 1 to
  12, the day exists in that month, the hour is at most 23 and minute and second are at
  most 59. A valid timestamp is represented by the number its fourteen digits spell: the
  order of datetimes is the order of these numbers.
\<close>

definition is_leap :: "nat \<Rightarrow> bool" where
  "is_leap y = (y mod 4 = 0 \<and> (y mod 100 \<noteq> 0 \<or> y mod 400 = 0))"

definition days_in_month :: "nat \<Rightarrow> nat \<Rightarrow> nat" where
  "days_in_month y m =
     (if m = 2 then (if is_leap y then 29 else 28)
      else if m = 4 \<or> m = 6 \<or> m = 9 \<or> m = 11 then 30 else 31)"

definition parse_timestamp :: "string \<Rightarrow> nat option" where
  "parse_timestamp s =
     (let y = nat_of_digits (take 4 s);
          mo = nat_of_digits (take 2 (drop 5 s));
          d = nat_of_digits (take 2 (drop 8 s));
          h = nat_of_digits (take 2 (drop 11 s));
          mi = nat_of_digits (take 2 (drop 13 s));
          sec = nat_of_digits (take 2 (drop 15 s))
      in if 1 \<le> y \<and> 1 \<le> mo \<and> mo \<le> 12 \<and> 1 \<le> d \<and> d \<le> days_in_month y mo \<and>
            h \<le> 23 \<and> mi \<le> 59 \<and> sec \<le> 59
         then Some (((((y * 100 + mo) * 100 + d) * 100 + h) * 100 + mi) * 100 + sec)
         else None)"

text \<open>\<open>list.sort(key=..., reverse=True)\<close>: descending, equal keys in their original order.\<close>

definition sort_desc :: "('a \<Rightarrow> nat) \<Rightarrow> 'a list \<Rightarrow> 'a list" where
  "sort_desc key xs = rev (sort_key key (rev xs))"

subsection \<open>Undo (scan.py)\<close>

text \<open>
  A candidate is the folder's name, its timestamp and the number of its \<open>*.ld\<close> entries.
  Listing a path that is not a directory, or a directory that cannot be listed, raises
  OSError out of \<open>get_undo_candidates\<close>.
\<close>

definition undo_candidate :: "bool \<Rightarrow> string \<times> node \<Rightarrow> (string \<times> nat \<times> nat) list" where
  "undo_candidate windows entry =
     (if is_dir (snd entry) then
        (case match_pb_name (fst entry) of
           None \<Rightarrow> []
         | Some timestamp_str \<Rightarrow>
             (case parse_timestamp timestamp_str of
                None \<Rightarrow> []
              | Some timestamp \<Rightarrow>
                  [(fst entry, timestamp, length (glob_names windows ''.ld'' (snd entry)))]))
      else [])"

definition get_undo_candidates :: "bool \<Rightarrow> source \<Rightarrow> py_error + (string \<times> nat \<times> nat) list" where
  "get_undo_candidates windows source_dir =
     (case source_dir of
        Missing \<Rightarrow> Inr []
      | Not_A_Directory \<Rightarrow> Inl OSError
      | Directory list_ok es \<Rightarrow>
          if \<not> list_ok then Inl OSError
          else Inr (sort_desc (\<lambda>c. fst (snd c))
                      (concat (map (undo_candidate windows) (DAList.impl_of es)))))"

text \<open>
  The loop \<open>for item in folder.iterdir(): item.unlink()\<close>: the items that are left and
  whether every \<open>unlink\<close> succeeded. The first failure ends the loop.
\<close>

fun unlink_all :: "(string \<times> item) list \<Rightarrow> (string \<times> item) list \<times> bool" where
  "unlink_all [] = ([], True)"
| "unlink_all ((n, Item_File True) # es) = unlink_all es"
| "unlink_all ((n, x) # es) = ((n, x) # es, False)"

datatype undo_message = No_Folders | Deleted string nat | Error_Deleting

text \<open>
  \<open>undo_last_scan\<close> returns the folder (or None) and a message; the second component of
  the result here is the telemetry directory after the call. An exception of
  \<open>get_undo_candidates\<close> leaves the function.
\<close>

definition undo_last_scan ::
    "bool \<Rightarrow> source \<Rightarrow> (py_error + string option \<times> undo_message) \<times> source" where
  "undo_last_scan windows source_dir =
     (case get_undo_candidates windows source_dir of
        Inl e \<Rightarrow> (Inl e, source_dir)
      | Inr [] \<Rightarrow> (Inr (None, No_Folders), source_dir)
      | Inr ((folder, timestamp, file_count) # _) \<Rightarrow>
          (case source_dir of
             Directory root_list es \<Rightarrow>
               (case DAList.lookup es folder of
                  Some (Dir list_ok rmdir_ok items) \<Rightarrow>
                    if \<not> list_ok then (Inr (None, Error_Deleting), source_dir)
                    else
                      (let (left, all_unlinked) = unlink_all items
                       in if \<not> all_unlinked then
                            (Inr (None, Error_Deleting),
                             Directory root_list (DAList.update folder (Dir list_ok rmdir_ok left) es))
                          else if \<not> rmdir_ok then
                            (Inr (None, Error_Deleting),
                             Directory root_list (DAList.update folder (Dir list_ok rmdir_ok []) es))
                          else
                            (Inr (Some folder, Deleted folder file_count),
                             Directory root_list (DAList.delete folder es)))
                | _ \<Rightarrow> (Inr (None, Error_Deleting), source_dir))
           | _ \<Rightarrow> (Inr (None, Error_Deleting), source_dir)))"

subsection \<open>Cleanup (scan.py)\<close>

text \<open>
  \<open>get_cleanup_candidates\<close> returns the files, their count and their total size; the
  size plays no part in what is deleted and is left out.
\<close>

definition get_cleanup_candidates :: "bool \<Rightarrow> source \<Rightarrow> path list \<times> nat" where
  "get_cleanup_candidates windows source_dir =
     (case source_dir of
        Missing \<Rightarrow> ([], 0)
      | _ \<Rightarrow>
          (let files_to_delete =
                 concat (map (\<lambda>ext. filter (\<lambda>file_path. parent file_path = [])
                                         (glob_root windows ext source_dir))
                             [''.ld'', ''.ldx''])
           in (files_to_delete, length files_to_delete)))"

text \<open>\<open>file_path.unlink()\<close>: the entries of the telemetry directory after it, and success.\<close>

definition unlink :: "path \<Rightarrow> (string, node) alist \<Rightarrow> (string, node) alist \<times> bool" where
  "unlink file_path es =
     (case file_path of
        [name] \<Rightarrow>
          (case DAList.lookup es name of
             Some (File True) \<Rightarrow> (DAList.delete name es, True)
           | _ \<Rightarrow> (es, False))
      | _ \<Rightarrow> (es, False))"

text \<open>
  The loop of \<open>cleanup_old_files\<close>: the counters, the paths named in the error messages
  (one message per failure, starting with the file's name) and the entries after the loop.
\<close>

fun cleanup_loop ::
    "path list \<Rightarrow> nat \<times> nat \<times> path list \<Rightarrow> (string, node) alist \<Rightarrow>
     (nat \<times> nat \<times> path list) \<times> (string, node) alist" where
  "cleanup_loop [] acc es = (acc, es)"
| "cleanup_loop (file_path # rest) (success_count, error_count, errors) es =
     (let (es', ok) = unlink file_path es
      in if ok then cleanup_loop rest (success_count + 1, error_count, errors) es'
         else cleanup_loop rest (success_count, error_count + 1, errors @ [file_path]) es')"

definition cleanup_old_files ::
    "bool \<Rightarrow> source \<Rightarrow> (nat \<times> nat \<times> path list) \<times> source" where
  "cleanup_old_files windows source_dir =
     (let (files, count) = get_cleanup_candidates windows source_dir
      in if files = [] then ((0, 0, []), source_dir)
         else (case source_dir of
                 Directory list_ok es \<Rightarrow>
                   (let (res, es') = cleanup_loop files (0, 0, []) es
                    in (res, Directory list_ok es'))
               | _ \<Rightarrow> ((0, 0, []), source_dir)))"

section \<open>Rounding\<close>

lemma py_round_of_int: "py_round (of_int n) = n"
  by (simp add: py_round_def)


lemma py_round_mono_int: "of_int a \<le> x \<Longrightarrow> x \<le> of_int b \<Longrightarrow> a \<le> py_round x \<and> py_round x \<le> b"
proof -
  assume a: "of_int a \<le> x" and b: "x \<le> of_int b"
  have fa: "a \<le> \<lfloor>x\<rfloor>" using a by (simp add: le_floor_iff)
  have "py_round x \<le> b"
  proof (cases "x = of_int b")
    case True
    then show ?thesis by (simp add: py_round_of_int)
  next
    case False
    then have "x < of_int b" using b by simp
    then have "\<lfloor>x\<rfloor> < b" by (simp add: floor_less_iff)
    then show ?thesis by (auto simp: py_round_def Let_def)
  qed
  moreover have "a \<le> py_round x" using fa by (auto simp: py_round_def Let_def)
  ultimately show ?thesis by simp
qed

lemma py_round_ge: "of_int a \<le> x \<Longrightarrow> a \<le> py_round x"
proof -
  assume a: "of_int a \<le> x"
  have fa: "a \<le> \<lfloor>x\<rfloor>" using a by (simp add: le_floor_iff)
  then show ?thesis by (auto simp: py_round_def Let_def)
qed

lemma py_round_le: "x \<le> of_int b \<Longrightarrow> py_round x \<le> b"
proof -
  assume b: "x \<le> of_int b"
  show "py_round x \<le> b"
  proof (cases "x = of_int b")
    case True
    then show ?thesis by (simp add: py_round_of_int)
  next
    case False
    then have "x < of_int b" using b by simp
    then have "\<lfloor>x\<rfloor> < b" by (simp add: floor_less_iff)
    then show ?thesis by (auto simp: py_round_def Let_def)
  qed
qed

lemma bit_length_bounds: "0 < n \<Longrightarrow> 2 ^ (bit_length n - 1) \<le> n \<and> n < 2 ^ bit_length n"
proof (induction n rule: bit_length.induct)
  case (1 n)
  show ?case
  proof (cases "n div 2 = 0")
    case True
    then have n1: "n = 1" using 1(2) by linarith
    have "bit_length (1 div 2) = 0" by (subst bit_length.simps) simp
    then have "bit_length 1 = 1" by (subst bit_length.simps) simp
    then show ?thesis using n1 by simp
  next
    case False
    then have ih: "2 ^ (bit_length (n div 2) - 1) \<le> n div 2 \<and> n div 2 < 2 ^ bit_length (n div 2)"
      using 1 by simp
    have bl: "bit_length n = Suc (bit_length (n div 2))" using 1(2) by (subst bit_length.simps) simp
    have pos: "0 < bit_length (n div 2)" using False by (subst bit_length.simps) simp
    then have "(2::nat) ^ bit_length (n div 2) = 2 * 2 ^ (bit_length (n div 2) - 1)"
      by (cases "bit_length (n div 2)") simp_all
    then have "2 ^ (bit_length n - 1) \<le> 2 * (n div 2)" using ih bl by simp
    moreover have "n < 2 * 2 ^ bit_length (n div 2)" using ih by linarith
    ultimately show ?thesis using bl by simp
  qed
qed


lemma bit_length_pos: "0 < n \<Longrightarrow> 0 < bit_length n"
  by (subst bit_length.simps) simp

lemma expo_bounds:
  assumes "0 < x"
  shows "2 powi (expo x) \<le> x \<and> x < 2 powi (expo x + 1)"
proof (cases "1 \<le> x")
  case True
  define n where "n = nat \<lfloor>x\<rfloor>"
  define j where "j = bit_length n"
  have npos: "0 < n" using True by (simp add: n_def)
  have jpos: "0 < j" using npos by (simp add: j_def bit_length_pos)
  have b: "2 ^ (j - 1) \<le> n \<and> n < 2 ^ j" unfolding j_def using bit_length_bounds [OF npos] .
  have nx: "real n \<le> x" using True by (simp add: n_def)
  have xn: "x < real n + 1" using True by (simp add: n_def)
  have e: "expo x = int (j - 1)" using True jpos by (simp add: expo_def n_def j_def)
  have "real (2 ^ (j - 1)) \<le> real n" using b by (simp only: of_nat_le_iff)
  then have "(2::real) ^ (j - 1) \<le> real n" by (simp only: of_nat_power of_nat_numeral)
  then have lo: "2 ^ (j - 1) \<le> x" using nx by linarith
  have "Suc n \<le> 2 ^ j" using b by simp
  then have "real (Suc n) \<le> real (2 ^ j)" by (simp only: of_nat_le_iff)
  then have "real n + 1 \<le> (2::real) ^ j" by (simp only: of_nat_power of_nat_numeral of_nat_Suc)
  then have hi: "x < 2 ^ j" using xn by linarith
  have p1: "(2::real) powi (expo x) = 2 ^ (j - 1)" unfolding e by (rule power_int_of_nat)
  have "expo x + 1 = int j" using e jpos by simp
  then have p2: "(2::real) powi (expo x + 1) = 2 ^ j" by (simp only: power_int_of_nat)
  show ?thesis unfolding p1 p2 using lo hi by blast
next
  case False
  define y where "y = 1 / x"
  define n where "n = nat \<lfloor>y\<rfloor>"
  define j where "j = bit_length n"
  have y1: "1 < y" using False assms by (simp add: y_def)
  have npos: "0 < n" using y1 by (simp add: n_def)
  have jpos: "0 < j" using npos by (simp add: j_def bit_length_pos)
  have b: "2 ^ (j - 1) \<le> n \<and> n < 2 ^ j" unfolding j_def using bit_length_bounds [OF npos] .
  have ny: "real n \<le> y" using y1 by (simp add: n_def)
  have yn: "y < real n + 1" using y1 by (simp add: n_def)
  have "real (2 ^ (j - 1)) \<le> real n" using b by (simp only: of_nat_le_iff)
  then have "(2::real) ^ (j - 1) \<le> real n" by (simp only: of_nat_power of_nat_numeral)
  then have lo: "2 ^ (j - 1) \<le> y" using ny by linarith
  have "Suc n \<le> 2 ^ j" using b by simp
  then have "real (Suc n) \<le> real (2 ^ j)" by (simp only: of_nat_le_iff)
  then have "real n + 1 \<le> (2::real) ^ j" by (simp only: of_nat_power of_nat_numeral of_nat_Suc)
  then have hi: "y < 2 ^ j" using yn by linarith
  have xy: "x = 1 / y" by (simp add: y_def)
  have xlo: "1 / 2 ^ j < x" unfolding xy using hi y1 by (simp add: frac_less2)
  have xhi: "x \<le> 1 / 2 ^ (j - 1)" unfolding xy using lo by (simp add: frac_le)
  have pj: "(2::real) powi (- int j) = 1 / 2 ^ j" by (simp add: power_int_minus_divide)
  have pj1: "(2::real) powi (1 - int j) = 1 / 2 ^ (j - 1)"
  proof -
    have "(2::real) powi (- int (j - 1)) = 1 / 2 ^ (j - 1)"
      by (simp only: power_int_minus_divide power_int_of_nat)
    moreover have "- int (j - 1) = 1 - int j" using jpos by linarith
    ultimately show ?thesis by (simp only:)
  qed
  have pj2: "(2::real) powi (int j - 1) = 2 ^ (j - 1)"
  proof -
    have "(2::real) powi (int (j - 1)) = 2 ^ (j - 1)" by (rule power_int_of_nat)
    moreover have "int (j - 1) = int j - 1" using jpos by linarith
    ultimately show ?thesis by (simp only:)
  qed
  show ?thesis
  proof (cases "x * 2 powi (int j - 1) = 1")
    case eq: True
    then have e: "expo x = 1 - int j" using False by (simp add: expo_def Let_def y_def n_def j_def)
    have xe: "x = 1 / 2 ^ (j - 1)" using eq unfolding pj2 by (simp add: field_simps)
    have "(2::real) powi (1 - int j + 1) = 2 powi (1 - int j) * 2"
      by (rule power_int_add_1) simp
    then have "(2::real) powi (1 - int j + 1) = x * 2" unfolding pj1 xe by simp
    moreover have "2 powi (1 - int j) = x" unfolding pj1 xe by simp
    ultimately show ?thesis unfolding e using assms by simp
  next
    case ne: False
    then have e: "expo x = - int j" using False by (simp add: expo_def Let_def y_def n_def j_def)
    have "x \<noteq> 1 / 2 ^ (j - 1)"
    proof
      assume "x = 1 / 2 ^ (j - 1)"
      then have "x * 2 ^ (j - 1) = 1" by simp
      then show False using ne unfolding pj2 by simp
    qed
    then have "x < 1 / 2 ^ (j - 1)" using xhi by simp
    moreover have "- int j + 1 = 1 - int j" by simp
    ultimately show ?thesis unfolding e using xlo pj pj1 by simp
  qed
qed

lemma expo_unique:
  assumes "0 < x" and "2 powi e \<le> x" and "x < 2 powi (e + 1)"
  shows "expo x = e"
proof -
  have b: "2 powi (expo x) \<le> x \<and> x < 2 powi (expo x + 1)" using expo_bounds [OF assms(1)] .
  have lt1: "(2::real) powi e < 2 powi (expo x + 1)" using assms(2) b by linarith
  have 1: "e < expo x + 1"
  proof (rule ccontr)
    assume "\<not> e < expo x + 1"
    then have "(2::real) powi (expo x + 1) \<le> 2 powi e" by (intro power_int_increasing) simp_all
    then show False using lt1 by simp
  qed
  have lt2: "(2::real) powi (expo x) < 2 powi (e + 1)" using assms(3) b by linarith
  have 2: "expo x < e + 1"
  proof (rule ccontr)
    assume "\<not> expo x < e + 1"
    then have "(2::real) powi (e + 1) \<le> 2 powi (expo x)" by (intro power_int_increasing) simp_all
    then show False using lt2 by simp
  qed
  show ?thesis using 1 2 by simp
qed


lemma ulp_scale:
  "(2::real) powi e = 2 ^ 52 * 2 powi (e - 52) \<and> (2::real) powi (e + 1) = 2 ^ 53 * 2 powi (e - 52)"
proof -
  have "(2::real) powi (52 + (e - 52)) = 2 powi 52 * 2 powi (e - 52)"
    by (rule power_int_add) simp
  moreover have "(2::real) powi (53 + (e - 52)) = 2 powi 53 * 2 powi (e - 52)"
    by (rule power_int_add) simp
  moreover have "52 + (e - 52) = e" "53 + (e - 52) = e + 1" by simp_all
  ultimately show ?thesis by simp
qed

lemma quotient_bounds:
  assumes "0 < x"
  shows "of_int (2 ^ 52) \<le> x / 2 powi (expo x - 52) \<and> x / 2 powi (expo x - 52) \<le> of_int (2 ^ 53)"
proof -
  define u :: real where "u = 2 powi (expo x - 52)"
  have upos: "0 < u" by (simp add: u_def)
  have b: "2 powi (expo x) \<le> x \<and> x < 2 powi (expo x + 1)" using expo_bounds [OF assms] .
  have s: "(2::real) powi (expo x) = 2 ^ 52 * u \<and> 2 powi (expo x + 1) = 2 ^ 53 * u"
    unfolding u_def by (rule ulp_scale)
  have "2 ^ 52 * u \<le> x" "x \<le> 2 ^ 53 * u" using b s by simp_all
  then have "2 ^ 52 \<le> x / u" "x / u \<le> 2 ^ 53" using upos by (simp_all add: field_simps)
  then show ?thesis unfolding u_def by simp
qed

lemma rnd_pos_unfold:
  "0 < x \<Longrightarrow> rnd x = of_int (py_round (x / 2 powi (expo x - 52))) * 2 powi (expo x - 52)"
  by (simp add: rnd_def Let_def)

lemma rnd_lower:
  assumes "0 < x"
  shows "2 powi (expo x) \<le> rnd x"
proof -
  define u :: real where "u = 2 powi (expo x - 52)"
  have upos: "0 < u" by (simp add: u_def)
  have "2 ^ 52 \<le> py_round (x / u)"
    unfolding u_def using quotient_bounds [OF assms] by (intro py_round_ge) simp
  then have "(of_int (2 ^ 52) :: real) \<le> of_int (py_round (x / u))" by (simp only: of_int_le_iff)
  then have "2 ^ 52 * u \<le> of_int (py_round (x / u)) * u" using upos by simp
  then show ?thesis using ulp_scale [of "expo x"] rnd_pos_unfold [OF assms] unfolding u_def by simp
qed

lemma rnd_upper:
  assumes "0 < x"
  shows "rnd x \<le> 2 powi (expo x + 1)"
proof -
  define u :: real where "u = 2 powi (expo x - 52)"
  have upos: "0 < u" by (simp add: u_def)
  have "py_round (x / u) \<le> 2 ^ 53"
    unfolding u_def using quotient_bounds [OF assms] by (intro py_round_le) simp
  then have "(of_int (py_round (x / u)) :: real) \<le> of_int (2 ^ 53)" by (simp only: of_int_le_iff)
  then have "of_int (py_round (x / u)) * u \<le> 2 ^ 53 * u" using upos by simp
  then show ?thesis using ulp_scale [of "expo x"] rnd_pos_unfold [OF assms] unfolding u_def by simp
qed

lemma rnd_pos: "0 < x \<Longrightarrow> 0 < rnd x"
proof -
  assume x: "0 < x"
  have "(0::real) < 2 powi (expo x)" by simp
  then show ?thesis using rnd_lower [OF x] by linarith
qed





lemma expo_mono:
  assumes "0 < x" and "x \<le> y"
  shows "expo x \<le> expo y"
proof (rule ccontr)
  assume "\<not> expo x \<le> expo y"
  then have "expo y + 1 \<le> expo x" by simp
  then have "(2::real) powi (expo y + 1) \<le> 2 powi (expo x)" by (intro power_int_increasing) simp_all
  moreover have "y < 2 powi (expo y + 1)" using expo_bounds [of y] assms by simp
  moreover have "2 powi (expo x) \<le> x" using expo_bounds [OF assms(1)] by simp
  ultimately show False using assms(2) by linarith
qed

lemma double_quotient_int:
  assumes "0 < f" and "is_double f"
  shows "f / 2 powi (expo f - 52) = of_int (py_round (f / 2 powi (expo f - 52)))"
proof -
  define u :: real where "u = 2 powi (expo f - 52)"
  have upos: "0 < u" by (simp add: u_def)
  have "of_int (py_round (f / u)) * u = f"
    using assms rnd_pos_unfold [OF assms(1)] unfolding is_double_def u_def by simp
  then have "f / u = of_int (py_round (f / u))" using upos by (simp add: field_simps)
  then show ?thesis unfolding u_def .
qed

lemma rnd_le_double:
  assumes "0 < x" and "is_double f" and "x \<le> f"
  shows "rnd x \<le> f"
proof -
  have fpos: "0 < f" using assms by linarith
  have le: "expo x \<le> expo f" using expo_mono [OF assms(1,3)] .
  show ?thesis
  proof (cases "expo x = expo f")
    case True
    define u :: real where "u = 2 powi (expo x - 52)"
    have upos: "0 < u" by (simp add: u_def)
    define M where "M = py_round (f / u)"
    have fM: "f / u = of_int M" unfolding M_def u_def True using double_quotient_int [OF fpos assms(2)] .
    have "x / u \<le> f / u" using assms(3) upos by (simp add: divide_right_mono)
    then have "py_round (x / u) \<le> M" unfolding fM by (rule py_round_le)
    then have "(of_int (py_round (x / u)) :: real) \<le> of_int M" by (simp only: of_int_le_iff)
    then have "of_int (py_round (x / u)) * u \<le> of_int M * u" using upos by simp
    moreover have "of_int M * u = f" using fM upos by (simp add: field_simps)
    ultimately show ?thesis using rnd_pos_unfold [OF assms(1)] unfolding u_def by simp
  next
    case False
    then have "expo x + 1 \<le> expo f" using le by simp
    then have "(2::real) powi (expo x + 1) \<le> 2 powi (expo f)" by (intro power_int_increasing) simp_all
    moreover have "2 powi (expo f) \<le> f" using expo_bounds [OF fpos] by simp
    ultimately show ?thesis using rnd_upper [OF assms(1)] by linarith
  qed
qed

lemma rnd_ge_double:
  assumes "0 < x" and "is_double f" and "f \<le> x"
  shows "f \<le> rnd x"
proof (cases "0 < f")
  case False
  then show ?thesis using rnd_pos [OF assms(1)] by linarith
next
  case fpos: True
  have le: "expo f \<le> expo x" using expo_mono [OF fpos assms(3)] .
  show ?thesis
  proof (cases "expo x = expo f")
    case True
    define u :: real where "u = 2 powi (expo x - 52)"
    have upos: "0 < u" by (simp add: u_def)
    define M where "M = py_round (f / u)"
    have fM: "f / u = of_int M" unfolding M_def u_def True using double_quotient_int [OF fpos assms(2)] .
    have "f / u \<le> x / u" using assms(3) upos by (simp add: divide_right_mono)
    then have "M \<le> py_round (x / u)" unfolding fM by (rule py_round_ge)
    then have "(of_int M :: real) \<le> of_int (py_round (x / u))" by (simp only: of_int_le_iff)
    then have "of_int M * u \<le> of_int (py_round (x / u)) * u" using upos by simp
    moreover have "of_int M * u = f" using fM upos by (simp add: field_simps)
    ultimately show ?thesis using rnd_pos_unfold [OF assms(1)] unfolding u_def by simp
  next
    case False
    then have "expo f + 1 \<le> expo x" using le by simp
    then have "(2::real) powi (expo f + 1) \<le> 2 powi (expo x)" by (intro power_int_increasing) simp_all
    moreover have "f < 2 powi (expo f + 1)" using expo_bounds [OF fpos] by simp
    ultimately show ?thesis using rnd_lower [OF assms(1)] by linarith
  qed
qed

lemma rnd_eval:
  assumes "0 < x" and "2 powi e \<le> x" and "x < 2 powi (e + 1)"
  shows "rnd x = of_int (py_round (x / 2 powi (e - 52))) * 2 powi (e - 52)"
  using rnd_pos_unfold [OF assms(1)] expo_unique [OF assms] by simp

lemma double_scaled:
  assumes "\<bar>m\<bar> < 2 ^ 53"
  shows "is_double (of_int m * 2 powi k)"
proof (cases "m = 0")
  case True
  then show ?thesis by (simp add: is_double_def rnd_def)
next
  case False
  define x :: real where "x = of_int m * 2 powi k"
  have ax: "\<bar>x\<bar> = of_int \<bar>m\<bar> * 2 powi k" by (simp add: x_def abs_mult)
  have xpos: "0 < \<bar>x\<bar>" using False by (simp add: x_def)
  define d where "d = expo \<bar>x\<bar> - 52"
  define u :: real where "u = 2 powi d"
  have upos: "0 < u" by (simp add: u_def)
  have "2 ^ 52 * u \<le> \<bar>x\<bar>"
    using expo_bounds [OF xpos] ulp_scale [of "expo \<bar>x\<bar>"] unfolding u_def d_def by simp
  moreover have "\<bar>x\<bar> < 2 ^ 53 * 2 powi k"
  proof -
    have "(of_int \<bar>m\<bar> :: real) < of_int (2 ^ 53)" using assms by (simp only: of_int_less_iff)
    then show ?thesis unfolding ax by simp
  qed
  ultimately have "2 ^ 52 * u < 2 ^ 53 * 2 powi k" by linarith
  then have lt: "u < 2 * 2 powi k" by simp
  have dk: "d \<le> k"
  proof (rule ccontr)
    assume "\<not> d \<le> k"
    then have "k + 1 \<le> d" by simp
    then have "(2::real) powi (k + 1) \<le> 2 powi d" by (intro power_int_increasing) simp_all
    moreover have "(2::real) powi (k + 1) = 2 powi k * 2" by (rule power_int_add_1) simp
    ultimately show False using lt unfolding u_def by simp
  qed
  define n where "n = nat (k - d)"
  have "(2::real) powi (int n + d) = 2 powi (int n) * 2 powi d" by (rule power_int_add) simp
  moreover have "int n + d = k" using dk by (simp add: n_def)
  ultimately have "(2::real) powi k = 2 ^ n * u" unfolding u_def by simp
  then have "x / u = of_int m * 2 ^ n" using upos by (simp add: x_def)
  then have q: "x / u = of_int (m * 2 ^ n)" by simp
  have "rnd x = of_int (py_round (x / u)) * u"
    using xpos by (simp add: rnd_def Let_def u_def d_def)
  also have "\<dots> = of_int (m * 2 ^ n) * u" unfolding q py_round_of_int ..
  also have "\<dots> = x / u * u" unfolding q ..
  also have "\<dots> = x" using upos by simp
  finally show ?thesis unfolding is_double_def x_def .
qed

lemma double_of_int: "\<bar>m\<bar> < 2 ^ 53 \<Longrightarrow> is_double (of_int m)"
  using double_scaled [of m 0] by simp



section \<open>Properties of the classifier\<close>

lemma lit_005: "rnd (5 / 100) = 3602879701896397 / 2 ^ 56"
  by (simp add: rnd_def expo_def bit_length.simps py_round_def Let_def)

lemma one_minus_005: "fsub 1 (rnd (5 / 100)) = 4278419646001971 / 2 ^ 52"
  unfolding lit_005 fsub_def by (simp add: rnd_def expo_def bit_length.simps py_round_def Let_def)

lemma one_plus_005: "fadd 1 (rnd (5 / 100)) = 4728779608739021 / 2 ^ 52"
  unfolding lit_005 fadd_def by (simp add: rnd_def expo_def bit_length.simps py_round_def Let_def)

lemma bounds_100_005:
  "fmul 100 (fsub 1 (rnd (5 / 100))) = 95 \<and> fmul 100 (fadd 1 (rnd (5 / 100))) = 105"
  unfolding one_minus_005 one_plus_005 fmul_def
  by (simp add: rnd_def expo_def bit_length.simps py_round_def Let_def)


lemma double_one: "is_double 1"
  using double_of_int [of 1] by simp

lemma bounds_around_benchmark:
  assumes "0 < b" and "is_double b" and "0 < tol" and "tol < 1"
  shows "fmul b (fsub 1 tol) \<le> b \<and> b \<le> fmul b (fadd 1 tol)"
proof -
  have lo1: "0 < fsub 1 tol" unfolding fsub_def using assms by (intro rnd_pos) simp
  have lo2: "fsub 1 tol \<le> 1" unfolding fsub_def using assms double_one by (intro rnd_le_double) simp_all
  have hi1: "1 \<le> fadd 1 tol" unfolding fadd_def using assms double_one by (intro rnd_ge_double) simp_all
  have "0 < b * fsub 1 tol" using assms(1) lo1 by simp
  moreover have "b * fsub 1 tol \<le> b" using assms(1) lo2 by simp
  ultimately have a: "fmul b (fsub 1 tol) \<le> b" unfolding fmul_def using assms(2) by (intro rnd_le_double)
  have "0 < b * fadd 1 tol" using assms(1) hi1 by simp
  moreover have "b \<le> b * fadd 1 tol" using assms(1) hi1 by simp
  ultimately have b: "b \<le> fmul b (fadd 1 tol)" unfolding fmul_def using assms(2) by (intro rnd_ge_double)
  show ?thesis using a b by simp
qed

text \<open>
  Claim C1, as the code has it. For positive float benchmarks and a tolerance strictly
  between 0 and 1, the dry benchmark always classifies as Dry. The wet benchmark classifies
  as Wet unless it lies inside the dry range, which is tried first: then it classifies as
  Dry.
\<close>

theorem classify_lap_benchmarks:
  assumes "0 < dry" and "0 < wet" and "0 < tol" and "tol < 1"
    and "is_double dry" and "is_double wet"
  shows "classify_lap dry dry wet tol = Dry \<and>
         classify_lap wet dry wet tol =
           (if fmul dry (fsub 1 tol) \<le> wet \<and> wet \<le> fmul dry (fadd 1 tol) then Dry else Wet)"
proof -
  have d: "fmul dry (fsub 1 tol) \<le> dry \<and> dry \<le> fmul dry (fadd 1 tol)"
    using bounds_around_benchmark [OF assms(1,5,3,4)] .
  have w: "fmul wet (fsub 1 tol) \<le> wet \<and> wet \<le> fmul wet (fadd 1 tol)"
    using bounds_around_benchmark [OF assms(2,6,3,4)] .
  show ?thesis using d w by (simp add: classify_lap_def Let_def)
qed

theorem classify_lap_benchmarks_witness:
  "(0::real) < 100 \<and> (0::real) < 140 \<and> 0 < rnd (5 / 100) \<and> rnd (5 / 100) < 1 \<and>
   is_double 100 \<and> is_double 140 \<and>
   classify_lap 100 100 140 (rnd (5 / 100)) = Dry \<and>
   classify_lap 140 100 140 (rnd (5 / 100)) = Wet"
proof -
  have t: "0 < rnd (5 / 100)" "rnd (5 / 100) < 1" unfolding lit_005 by simp_all
  have d: "is_double 100" "is_double 140"
    using double_of_int [of 100] double_of_int [of 140] by simp_all
  show ?thesis
    using classify_lap_benchmarks [of 100 140 "rnd (5 / 100)", OF _ _ t d] t d bounds_100_005
    by simp
qed

text \<open>
  With dry = 100, wet = 104 and the tolerance 0.05 the dry range is [95, 105]; the wet
  benchmark 104 lies in it and is classified Dry, not Wet.
\<close>

theorem classify_lap_wet_benchmark_counterexample:
  "(0::real) < 100 \<and> (0::real) < 104 \<and> 0 < rnd (5 / 100) \<and> rnd (5 / 100) < 1 \<and>
   is_double 100 \<and> is_double 104 \<and>
   classify_lap 104 100 104 (rnd (5 / 100)) \<noteq> Wet"
proof -
  have t: "0 < rnd (5 / 100)" "rnd (5 / 100) < 1" unfolding lit_005 by simp_all
  have d: "is_double 100" "is_double 104"
    using double_of_int [of 100] double_of_int [of 104] by simp_all
  have "classify_lap 104 100 104 (rnd (5 / 100)) = Dry"
    using bounds_100_005 by (simp add: classify_lap_def Let_def)
  then show ?thesis using t d by simp
qed


text \<open>
  Three inputs on which the rounded bounds decide the result. With the tolerance 0.13
  the dry maximum for the benchmark 100 is the float 112.99999999999999, so the lap 113 is
  above the dry range; with the tolerance 0.05 the dry maximum for the benchmark 102 is the
  float 107.10000000000001.
\<close>

lemma lit_013: "rnd (13 / 100) = 1170935903116329 / 2 ^ 53"
  by (simp add: rnd_def expo_def bit_length.simps py_round_def Let_def)

lemma one_minus_013: "fsub 1 (rnd (13 / 100)) = 7836263351624663 / 2 ^ 53"
  unfolding lit_013 fsub_def by (simp add: rnd_def expo_def bit_length.simps py_round_def Let_def)

lemma one_plus_013: "fadd 1 (rnd (13 / 100)) = 1272266894732165 / 2 ^ 50"
  unfolding lit_013 fadd_def by (simp add: rnd_def expo_def bit_length.simps py_round_def Let_def)

lemma bounds_100_013:
  "fmul 100 (fsub 1 (rnd (13 / 100))) = 87 \<and>
   fmul 100 (fadd 1 (rnd (13 / 100))) = 7951668092076031 / 2 ^ 46"
  unfolding one_minus_013 one_plus_013 fmul_def
  by (simp add: rnd_def expo_def bit_length.simps py_round_def Let_def)

lemma bounds_140_013:
  "fmul 140 (fsub 1 (rnd (13 / 100))) = 8570913040839475 / 2 ^ 46 \<and>
   fmul 140 (fadd 1 (rnd (13 / 100))) = 2783083832226611 / 2 ^ 44"
  unfolding one_minus_013 one_plus_013 fmul_def
  by (simp add: rnd_def expo_def bit_length.simps py_round_def Let_def)

lemma bounds_102_005:
  "fmul 102 (fsub 1 (rnd (5 / 100))) = 6818731310815641 / 2 ^ 46 \<and>
   fmul 102 (fadd 1 (rnd (5 / 100))) = 7536492501427815 / 2 ^ 46"
  unfolding one_minus_005 one_plus_005 fmul_def
  by (simp add: rnd_def expo_def bit_length.simps py_round_def Let_def)

lemma classify_lap_rounded_bounds:
  "classify_lap 113 100 140 (rnd (13 / 100)) = Gap \<and>
   classify_lap 113 100 113 (rnd (13 / 100)) = Wet \<and>
   classify_lap (7536492501427815 / 2 ^ 46) 102 140 (rnd (5 / 100)) = Dry"
proof -
  have a: "classify_lap 113 100 140 (rnd (13 / 100)) = Gap"
    using bounds_100_013 bounds_140_013 by (simp add: classify_lap_def Let_def)
  have t: "0 < rnd (13 / 100)" "rnd (13 / 100) < 1" unfolding lit_013 by simp_all
  have d: "is_double 113" using double_of_int [of 113] by simp
  have w: "fmul 113 (fsub 1 (rnd (13 / 100))) \<le> 113 \<and> 113 \<le> fmul 113 (fadd 1 (rnd (13 / 100)))"
    using bounds_around_benchmark [OF _ d t] by simp
  have b: "classify_lap 113 100 113 (rnd (13 / 100)) = Wet"
    using bounds_100_013 w by (simp add: classify_lap_def Let_def)
  have c: "classify_lap (7536492501427815 / 2 ^ 46) 102 140 (rnd (5 / 100)) = Dry"
    using bounds_102_005 by (simp add: classify_lap_def Let_def)
  show ?thesis using a b c by simp
qed


section \<open>Properties of the tolerance recommendation\<close>











end
